theory Spec2Isabelle
  imports Main "HOL-Library.List_Lexorder"
begin

section \<open>The stock picker \<^verbatim>\<open>divine.py\<close>: data and operations\<close>

text \<open>
  Python integers are unbounded, so they are modelled as \<^typ>\<open>int\<close>. Every exception the
  modelled code can raise is a value of \<open>error\<close>; a function that may raise returns
  \<open>error + 'a\<close> with \<open>Inl\<close> for the exception.
\<close>

datatype error = ValueError | StopIteration | IndexError | OverflowError | AssertionError

subsection \<open>Configuration constants\<close>

definition N_PICKS :: int where
  "N_PICKS = 4"

definition SR_BITS :: int where
  "SR_BITS = 7"

subsection \<open>\<^verbatim>\<open>math.comb\<close>\<close>

text \<open>
  \<^verbatim>\<open>math.comb(n, k)\<close> raises \<^verbatim>\<open>ValueError\<close> when either argument is negative and is the
  binomial coefficient otherwise (zero when \<open>k > n\<close>).
\<close>

definition math_comb :: "int \<Rightarrow> int \<Rightarrow> error + int" where
  "math_comb n k =
     (if n < 0 \<or> k < 0 then Inl ValueError else Inr (int (nat n choose nat k)))"

subsection \<open>\<^verbatim>\<open>_get_ith_comb\<close>\<close>

text \<open>
  The generator \<^verbatim>\<open>scored\<close> pairs every \<open>x\<close> of \<^verbatim>\<open>reversed(range(n_p))\<close> with
  \<^verbatim>\<open>get_below(x) = math.comb(x, k_p)\<close>, lazily; \<^verbatim>\<open>next(x for x in scored if x[1] <= above)\<close>
  takes the first pair whose second component is at most \<^verbatim>\<open>above\<close> and raises
  \<^verbatim>\<open>StopIteration\<close> when the candidates are used up.
\<close>

fun next_scored :: "int \<Rightarrow> int \<Rightarrow> int list \<Rightarrow> error + (int \<times> int)" where
  "next_scored k_p abv [] = Inl StopIteration"
| "next_scored k_p abv (x # xs) =
     (case math_comb x k_p of
        Inl e \<Rightarrow> Inl e
      | Inr below \<Rightarrow> if below \<le> abv then Inr (x, below) else next_scored k_p abv xs)"

text \<open>\<^verbatim>\<open>reversed(range(n_p))\<close>: the integers \<open>n_p - 1\<close> down to \<open>0\<close>, none when \<open>n_p \<le> 0\<close>.\<close>

definition reversed_range :: "int \<Rightarrow> int list" where
  "reversed_range n_p = rev [0..n_p - 1]"

text \<open>
  The \<^verbatim>\<open>for _ in range(0, k)\<close> loop, with the loop state \<open>(result, n_p, k_p, above)\<close>
  passed explicitly; the first argument counts the iterations still to run.
\<close>

fun comb_loop :: "nat \<Rightarrow> int \<Rightarrow> int list \<Rightarrow> int \<Rightarrow> int \<Rightarrow> int \<Rightarrow> error + int list" where
  "comb_loop 0 n result n_p k_p abv = Inr result"
| "comb_loop (Suc i) n result n_p k_p abv =
     (case next_scored k_p abv (reversed_range n_p) of
        Inl e \<Rightarrow> Inl e
      | Inr (x, below) \<Rightarrow> comb_loop i n (result @ [n - 1 - x]) x (k_p - 1) (abv - below))"

definition get_ith_comb :: "int \<Rightarrow> int \<Rightarrow> int \<Rightarrow> error + int list" where
  "get_ith_comb n k idx =
     (case math_comb n k of
        Inl e \<Rightarrow> Inl e
      | Inr c \<Rightarrow> comb_loop (nat k) n [] n k ((c - 1) - idx))"

subsection \<open>The enumeration the unranker is specified against\<close>

text \<open>
  The docstring of \<^verbatim>\<open>_get_ith_comb\<close> and the specification compare it with indexing into
  \<^verbatim>\<open>itertools.combinations(range(n), k)\<close>: all \<open>k\<close>-element subsequences of the pool, the
  ones keeping the first pool element before the ones dropping it.
\<close>

fun combinations :: "nat \<Rightarrow> 'a list \<Rightarrow> 'a list list" where
  "combinations 0 xs = [[]]"
| "combinations (Suc k) [] = []"
| "combinations (Suc k) (x # xs) = map ((#) x) (combinations k xs) @ combinations (Suc k) xs"

definition lex_combinations :: "int \<Rightarrow> int \<Rightarrow> int list list" where
  "lex_combinations n k = combinations (nat k) [0..n - 1]"

subsection \<open>The label universe and \<^verbatim>\<open>_pick_sp500_symbols\<close>\<close>

text \<open>\<^verbatim>\<open>SP_500\<close>: the whitespace-separated symbols of the source's string literal, in order.\<close>

definition SP_500 :: "string list" where
  "SP_500 =
    [''MMM'', ''AOS'', ''ABT'', ''ABBV'', ''ACN'', ''ATVI'', ''ADM'', ''ADBE'', ''ADP'',
     ''AAP'', ''AES'', ''AFL'', ''A'', ''APD'', ''AKAM'', ''ALK'', ''ALB'', ''ARE'',
     ''ALGN'', ''ALLE'', ''LNT'', ''ALL'', ''GOOGL'', ''GOOG'', ''MO'', ''AMZN'', ''AMCR'',
     ''AMD'', ''AEE'', ''AAL'', ''AEP'', ''AXP'', ''AIG'', ''AMT'', ''AWK'', ''AMP'',
     ''ABC'', ''AME'', ''AMGN'', ''APH'', ''ADI'', ''ANSS'', ''AON'', ''APA'', ''AAPL'',
     ''AMAT'', ''APTV'', ''ACGL'', ''ANET'', ''AJG'', ''AIZ'', ''T'', ''ATO'', ''ADSK'',
     ''AZO'', ''AVB'', ''AVY'', ''AXON'', ''BKR'', ''BALL'', ''BAC'', ''BBWI'', ''BAX'',
     ''BDX'', ''WRB'', ''BRK.B'', ''BBY'', ''BIO'', ''TECH'', ''BIIB'', ''BLK'', ''BK'',
     ''BA'', ''BKNG'', ''BWA'', ''BXP'', ''BSX'', ''BMY'', ''AVGO'', ''BR'', ''BRO'',
     ''BF.B'', ''BG'', ''CHRW'', ''CDNS'', ''CZR'', ''CPT'', ''CPB'', ''COF'', ''CAH'',
     ''KMX'', ''CCL'', ''CARR'', ''CTLT'', ''CAT'', ''CBOE'', ''CBRE'', ''CDW'', ''CE'',
     ''CNC'', ''CNP'', ''CDAY'', ''CF'', ''CRL'', ''SCHW'', ''CHTR'', ''CVX'', ''CMG'',
     ''CB'', ''CHD'', ''CI'', ''CINF'', ''CTAS'', ''CSCO'', ''C'', ''CFG'', ''CLX'',
     ''CME'', ''CMS'', ''KO'', ''CTSH'', ''CL'', ''CMCSA'', ''CMA'', ''CAG'', ''COP'',
     ''ED'', ''STZ'', ''CEG'', ''COO'', ''CPRT'', ''GLW'', ''CTVA'', ''CSGP'', ''COST'',
     ''CTRA'', ''CCI'', ''CSX'', ''CMI'', ''CVS'', ''DHI'', ''DHR'', ''DRI'', ''DVA'',
     ''DE'', ''DAL'', ''XRAY'', ''DVN'', ''DXCM'', ''FANG'', ''DLR'', ''DFS'', ''DIS'',
     ''DG'', ''DLTR'', ''D'', ''DPZ'', ''DOV'', ''DOW'', ''DTE'', ''DUK'', ''DD'', ''DXC'',
     ''EMN'', ''ETN'', ''EBAY'', ''ECL'', ''EIX'', ''EW'', ''EA'', ''ELV'', ''LLY'',
     ''EMR'', ''ENPH'', ''ETR'', ''EOG'', ''EPAM'', ''EQT'', ''EFX'', ''EQIX'', ''EQR'',
     ''ESS'', ''EL'', ''ETSY'', ''EG'', ''EVRG'', ''ES'', ''EXC'', ''EXPE'', ''EXPD'',
     ''EXR'', ''XOM'', ''FFIV'', ''FDS'', ''FICO'', ''FAST'', ''FRT'', ''FDX'', ''FITB'',
     ''FSLR'', ''FE'', ''FIS'', ''FI'', ''FLT'', ''FMC'', ''F'', ''FTNT'', ''FTV'',
     ''FOXA'', ''FOX'', ''BEN'', ''FCX'', ''GRMN'', ''IT'', ''GEHC'', ''GEN'', ''GNRC'',
     ''GD'', ''GE'', ''GIS'', ''GM'', ''GPC'', ''GILD'', ''GL'', ''GPN'', ''GS'', ''HAL'',
     ''HIG'', ''HAS'', ''HCA'', ''PEAK'', ''HSIC'', ''HSY'', ''HES'', ''HPE'', ''HLT'',
     ''HOLX'', ''HD'', ''HON'', ''HRL'', ''HST'', ''HWM'', ''HPQ'', ''HUM'', ''HBAN'',
     ''HII'', ''IBM'', ''IEX'', ''IDXX'', ''ITW'', ''ILMN'', ''INCY'', ''IR'', ''PODD'',
     ''INTC'', ''ICE'', ''IFF'', ''IP'', ''IPG'', ''INTU'', ''ISRG'', ''IVZ'', ''INVH'',
     ''IQV'', ''IRM'', ''JBHT'', ''JKHY'', ''J'', ''JNJ'', ''JCI'', ''JPM'', ''JNPR'',
     ''K'', ''KDP'', ''KEY'', ''KEYS'', ''KMB'', ''KIM'', ''KMI'', ''KLAC'', ''KHC'',
     ''KR'', ''LHX'', ''LH'', ''LRCX'', ''LW'', ''LVS'', ''LDOS'', ''LEN'', ''LNC'',
     ''LIN'', ''LYV'', ''LKQ'', ''LMT'', ''L'', ''LOW'', ''LYB'', ''MTB'', ''MRO'',
     ''MPC'', ''MKTX'', ''MAR'', ''MMC'', ''MLM'', ''MAS'', ''MA'', ''MTCH'', ''MKC'',
     ''MCD'', ''MCK'', ''MDT'', ''MRK'', ''META'', ''MET'', ''MTD'', ''MGM'', ''MCHP'',
     ''MU'', ''MSFT'', ''MAA'', ''MRNA'', ''MHK'', ''MOH'', ''TAP'', ''MDLZ'', ''MPWR'',
     ''MNST'', ''MCO'', ''MS'', ''MOS'', ''MSI'', ''MSCI'', ''NDAQ'', ''NTAP'', ''NFLX'',
     ''NWL'', ''NEM'', ''NWSA'', ''NWS'', ''NEE'', ''NKE'', ''NI'', ''NDSN'', ''NSC'',
     ''NTRS'', ''NOC'', ''NCLH'', ''NRG'', ''NUE'', ''NVDA'', ''NVR'', ''NXPI'', ''ORLY'',
     ''OXY'', ''ODFL'', ''OMC'', ''ON'', ''OKE'', ''ORCL'', ''OGN'', ''OTIS'', ''PCAR'',
     ''PKG'', ''PANW'', ''PARA'', ''PH'', ''PAYX'', ''PAYC'', ''PYPL'', ''PNR'', ''PEP'',
     ''PFE'', ''PCG'', ''PM'', ''PSX'', ''PNW'', ''PXD'', ''PNC'', ''POOL'', ''PPG'',
     ''PPL'', ''PFG'', ''PG'', ''PGR'', ''PLD'', ''PRU'', ''PEG'', ''PTC'', ''PSA'',
     ''PHM'', ''QRVO'', ''PWR'', ''QCOM'', ''DGX'', ''RL'', ''RJF'', ''RTX'', ''O'',
     ''REG'', ''REGN'', ''RF'', ''RSG'', ''RMD'', ''RVTY'', ''RHI'', ''ROK'', ''ROL'',
     ''ROP'', ''ROST'', ''RCL'', ''SPGI'', ''CRM'', ''SBAC'', ''SLB'', ''STX'', ''SEE'',
     ''SRE'', ''NOW'', ''SHW'', ''SPG'', ''SWKS'', ''SJM'', ''SNA'', ''SEDG'', ''SO'',
     ''LUV'', ''SWK'', ''SBUX'', ''STT'', ''STLD'', ''STE'', ''SYK'', ''SYF'', ''SNPS'',
     ''SYY'', ''TMUS'', ''TROW'', ''TTWO'', ''TPR'', ''TRGP'', ''TGT'', ''TEL'', ''TDY'',
     ''TFX'', ''TER'', ''TSLA'', ''TXN'', ''TXT'', ''TMO'', ''TJX'', ''TSCO'', ''TT'',
     ''TDG'', ''TRV'', ''TRMB'', ''TFC'', ''TYL'', ''TSN'', ''USB'', ''UDR'', ''ULTA'',
     ''UNP'', ''UAL'', ''UPS'', ''URI'', ''UNH'', ''UHS'', ''VLO'', ''VTR'', ''VRSN'',
     ''VRSK'', ''VZ'', ''VRTX'', ''VFC'', ''VTRS'', ''VICI'', ''V'', ''VMC'', ''WAB'',
     ''WBA'', ''WMT'', ''WBD'', ''WM'', ''WAT'', ''WEC'', ''WFC'', ''WELL'', ''WST'',
     ''WDC'', ''WRK'', ''WY'', ''WHR'', ''WMB'', ''WTW'', ''GWW'', ''WYNN'', ''XEL'',
     ''XYL'', ''YUM'', ''ZBRA'', ''ZBH'', ''ZION'', ''ZTS'']"

text \<open>
  \<^verbatim>\<open>xs[i]\<close> on a Python list: a negative index counts from the end, and an index outside
  \<open>[-len, len)\<close> raises \<^verbatim>\<open>IndexError\<close>.
\<close>

definition list_getitem :: "'a list \<Rightarrow> int \<Rightarrow> error + 'a" where
  "list_getitem xs i =
     (if 0 \<le> i \<and> i < int (length xs) then Inr (xs ! nat i)
      else if - int (length xs) \<le> i \<and> i < 0 then Inr (xs ! nat (int (length xs) + i))
      else Inl IndexError)"

text \<open>
  The comprehension \<^verbatim>\<open>[SP_500[i] for i in ...]\<close>: the indices are looked up from left to
  right and the first failing lookup ends the comprehension with its exception.
\<close>

fun getitem_each :: "'a list \<Rightarrow> int list \<Rightarrow> error + 'a list" where
  "getitem_each xs [] = Inr []"
| "getitem_each xs (i # js) =
     (case list_getitem xs i of
        Inl e \<Rightarrow> Inl e
      | Inr x \<Rightarrow> (case getitem_each xs js of Inl e \<Rightarrow> Inl e | Inr ys \<Rightarrow> Inr (x # ys)))"

definition pick_sp500_symbols :: "int \<Rightarrow> error + string list" where
  "pick_sp500_symbols choice =
     (case get_ith_comb (int (length SP_500)) N_PICKS choice of
        Inl e \<Rightarrow> Inl e
      | Inr comb \<Rightarrow> getitem_each SP_500 comb)"

subsection \<open>\<^verbatim>\<open>_get_bin_str_from_image\<close>\<close>

text \<open>
  Opening, converting and resizing the image is the work of the imaging library. The
  model starts from its three results: the pixels of the \<open>SR_BITS \<times> 1\<close> image, of the
  \<open>1 \<times> SR_BITS\<close> image and the single pixel of the \<open>1 \<times> 1\<close> image, each an 8-bit
  luminance. \<^verbatim>\<open>rows\<close> and \<^verbatim>\<open>cols\<close> are the flattened comparisons with \<^verbatim>\<open>average_l\<close>.
\<close>

definition threshold :: "nat list \<Rightarrow> nat \<Rightarrow> bool list" where
  "threshold pixels average_l = map (\<lambda>p. average_l < p) pixels"

text \<open>
  \<^verbatim>\<open>"0b" + "".join(str(int(r == c)) for r, c in it.product(rows, cols))\<close>:
  \<^verbatim>\<open>it.product\<close> runs through \<^verbatim>\<open>cols\<close> for each element of \<^verbatim>\<open>rows\<close>.
\<close>

definition get_bin_str :: "bool list \<Rightarrow> bool list \<Rightarrow> string" where
  "get_bin_str rows cols =
     ''0b'' @ concat (map (\<lambda>(r, c). if r = c then ''1'' else ''0'') (List.product rows cols))"

definition get_bin_str_from_image :: "nat list \<Rightarrow> nat list \<Rightarrow> nat \<Rightarrow> string" where
  "get_bin_str_from_image rows_mono_image cols_mono_image average_l =
     get_bin_str (threshold rows_mono_image average_l) (threshold cols_mono_image average_l)"

subsection \<open>\<^verbatim>\<open>int(x, 2)\<close>\<close>

text \<open>
  The literals modelled are the ones the program builds: binary digits, with or without
  the prefix \<^verbatim>\<open>0b\<close> or \<^verbatim>\<open>0B\<close>. An empty digit string and any other character give
  \<^verbatim>\<open>ValueError\<close>. (Python's \<^verbatim>\<open>int\<close> also accepts a sign, surrounding white space,
  underscores between digits and non-ASCII digits; no string of that kind is built by
  the program and none occurs in a statement below.)
\<close>

fun binary_digits :: "int \<Rightarrow> string \<Rightarrow> error + int" where
  "binary_digits acc [] = Inr acc"
| "binary_digits acc (ch # rest) =
     (if ch = CHR ''0'' then binary_digits (2 * acc) rest
      else if ch = CHR ''1'' then binary_digits (2 * acc + 1) rest
      else Inl ValueError)"

definition strip_0b :: "string \<Rightarrow> string" where
  "strip_0b x =
     (case x of
        a # b # rest \<Rightarrow> if a = CHR ''0'' \<and> (b = CHR ''b'' \<or> b = CHR ''B'') then rest else x
      | _ \<Rightarrow> x)"

definition int_base2 :: "string \<Rightarrow> error + int" where
  "int_base2 x = (if strip_0b x = [] then Inl ValueError else binary_digits 0 (strip_0b x))"

section \<open>The unranker against the enumeration\<close>

subsection \<open>The loop computes the indexed combination\<close>

lemma length_combinations: "length (combinations k xs) = (length xs choose k)"
  by (induction k xs rule: combinations.induct) simp_all

lemma combinations_nth_keep:
  "i < (length xs choose k) \<Longrightarrow> combinations (Suc k) (x # xs) ! i = x # combinations k xs ! i"
  by (simp add: nth_append length_combinations)

lemma combinations_nth_drop:
  "(length xs choose k) \<le> i \<Longrightarrow>
     combinations (Suc k) (x # xs) ! i = combinations (Suc k) xs ! (i - (length xs choose k))"
  by (simp add: nth_append length_combinations)

lemma reversed_range_Suc: "reversed_range (int (Suc m)) = int m # reversed_range (int m)"
proof -
  have "[0..int m] = [0..int m - 1] @ [int m]"
    by (rule upto_rec2) simp
  then show ?thesis
    by (simp add: reversed_range_def)
qed

lemma pool_Cons: "[n - int (Suc m)..n - 1] = (n - 1 - int m) # [n - int m..n - 1]"
  by (subst upto_rec1) (simp_all add: algebra_simps)

lemma length_pool: "length [n - int m..n - 1] = m"
  by simp

lemma comb_loop_skip:
  assumes "\<not> int (m choose Suc j) \<le> abv"
  shows "comb_loop (Suc j) n res (int (Suc m)) (int (Suc j)) abv
       = comb_loop (Suc j) n res (int m) (int (Suc j)) abv"
  using assms by (simp add: reversed_range_Suc math_comb_def del: of_nat_Suc)

lemma comb_loop_take:
  assumes "int (m choose Suc j) \<le> abv"
  shows "comb_loop (Suc j) n res (int (Suc m)) (int (Suc j)) abv
       = comb_loop j n (res @ [n - 1 - int m]) (int m) (int j) (abv - int (m choose Suc j))"
proof -
  have e: "int (Suc j) - 1 = int j" by simp
  from assms show ?thesis
    by (simp add: reversed_range_Suc math_comb_def e del: of_nat_Suc)
qed

lemma comb_loop_unrank:
  assumes "0 \<le> abv" "abv < int (m choose kp)"
  shows "comb_loop kp n res (int m) (int kp) abv
       = Inr (res @ combinations kp [n - int m..n - 1] ! nat (int (m choose kp) - 1 - abv))"
  using assms
proof (induction m arbitrary: kp abv res)
  case 0
  then show ?case by (cases kp) simp_all
next
  case (Suc m)
  show ?case
  proof (cases kp)
    case 0
    with Suc.prems show ?thesis by simp
  next
    case (Suc j)
    let ?pool = "[n - int m..n - 1]"
    let ?i = "nat (int (Suc m choose Suc j) - 1 - abv)"
    have split: "int (Suc m choose Suc j) = int (m choose j) + int (m choose Suc j)"
      by simp
    show ?thesis
    proof (cases "int (m choose Suc j) \<le> abv")
      case True
      have lo: "0 \<le> abv - int (m choose Suc j)" using True by simp
      have hi: "abv - int (m choose Suc j) < int (m choose j)"
        using Suc.prems(2) split unfolding \<open>kp = Suc j\<close> by linarith
      have i_lt: "?i < (length ?pool choose j)"
        using Suc.prems True split unfolding \<open>kp = Suc j\<close> length_pool by linarith
      have i_eq: "nat (int (m choose j) - 1 - (abv - int (m choose Suc j))) = ?i"
        using split by simp
      have "comb_loop (Suc j) n res (int (Suc m)) (int (Suc j)) abv
          = comb_loop j n (res @ [n - 1 - int m]) (int m) (int j) (abv - int (m choose Suc j))"
        by (rule comb_loop_take [OF True])
      also have "\<dots> = Inr ((res @ [n - 1 - int m]) @ combinations j ?pool ! ?i)"
        using Suc.IH [OF lo hi] i_eq by simp
      also have "\<dots> = Inr (res @ combinations (Suc j) ((n - 1 - int m) # ?pool) ! ?i)"
        using combinations_nth_keep [OF i_lt] by simp
      finally show ?thesis
        unfolding \<open>kp = Suc j\<close> pool_Cons .
    next
      case False
      have hi: "abv < int (m choose Suc j)" using False by simp
      have i_ge: "(length ?pool choose j) \<le> ?i"
        using Suc.prems hi split unfolding \<open>kp = Suc j\<close> length_pool by linarith
      have i_eq: "nat (int (m choose Suc j) - 1 - abv) = ?i - (length ?pool choose j)"
        using Suc.prems hi split unfolding \<open>kp = Suc j\<close> length_pool by linarith
      have "comb_loop (Suc j) n res (int (Suc m)) (int (Suc j)) abv
          = comb_loop (Suc j) n res (int m) (int (Suc j)) abv"
        by (rule comb_loop_skip [OF False])
      also have "\<dots> = Inr (res @ combinations (Suc j) ?pool ! nat (int (m choose Suc j) - 1 - abv))"
        by (rule Suc.IH [OF Suc.prems(1) hi])
      also have "\<dots> = Inr (res @ combinations (Suc j) ((n - 1 - int m) # ?pool) ! ?i)"
        using combinations_nth_drop [OF i_ge] i_eq by simp
      finally show ?thesis
        unfolding \<open>kp = Suc j\<close> pool_Cons .
    qed
  qed
qed

subsection \<open>The enumeration: ascending tuples in lexicographic order\<close>

lemma combinations_set_subset:
  "ys \<in> set (combinations k xs) \<Longrightarrow> set ys \<subseteq> set xs"
proof (induction k xs arbitrary: ys rule: combinations.induct)
  case (3 k x xs)
  from "3.prems" consider ys' where "ys = x # ys'" "ys' \<in> set (combinations k xs)"
    | "ys \<in> set (combinations (Suc k) xs)"
    by auto
  then show ?case
  proof cases
    case 1
    with "3.IH"(1) [of ys'] show ?thesis by auto
  next
    case 2
    with "3.IH"(2) [of ys] show ?thesis by auto
  qed
qed simp_all

lemma combinations_length_elem:
  "ys \<in> set (combinations k xs) \<Longrightarrow> length ys = k"
  by (induction k xs arbitrary: ys rule: combinations.induct) auto

lemma combinations_ascending:
  fixes xs :: "'a::linorder list"
  shows "sorted_wrt (<) xs \<Longrightarrow> ys \<in> set (combinations k xs) \<Longrightarrow> sorted_wrt (<) ys"
proof (induction k xs arbitrary: ys rule: combinations.induct)
  case (3 k x xs)
  from "3.prems"(1) have pool: "sorted_wrt (<) xs" and above_x: "\<forall>z \<in> set xs. x < z"
    by auto
  from "3.prems"(2) consider ys' where "ys = x # ys'" "ys' \<in> set (combinations k xs)"
    | "ys \<in> set (combinations (Suc k) xs)"
    by auto
  then show ?case
  proof cases
    case 1
    from combinations_set_subset [OF 1(2)] above_x have "\<forall>z \<in> set ys'. x < z" by auto
    with "3.IH"(1) [OF pool 1(2)] 1(1) show ?thesis by simp
  next
    case 2
    with "3.IH"(2) [OF pool] show ?thesis by simp
  qed
qed simp_all

lemma combinations_complete:
  fixes xs :: "'a::linorder list"
  shows "sorted_wrt (<) xs \<Longrightarrow> length ys = k \<Longrightarrow> sorted_wrt (<) ys \<Longrightarrow> set ys \<subseteq> set xs
     \<Longrightarrow> ys \<in> set (combinations k xs)"
proof (induction k xs arbitrary: ys rule: combinations.induct)
  case (1 xs)
  then show ?case by simp
next
  case (2 k)
  then show ?case by auto
next
  case (3 k x xs)
  from "3.prems"(2) obtain y ys' where ys: "ys = y # ys'" and len: "length ys' = k"
    by (cases ys) auto
  from "3.prems"(3) ys have asc: "sorted_wrt (<) ys'" and above_y: "\<forall>z \<in> set ys'. y < z"
    by auto
  from "3.prems"(1) have pool: "sorted_wrt (<) xs" and above_x: "\<forall>z \<in> set xs. x < z"
    by auto
  show ?case
  proof (cases "y = x")
    case True
    with above_y "3.prems"(4) ys have "set ys' \<subseteq> set xs" by auto
    with "3.IH"(1) [OF pool len asc] have "ys' \<in> set (combinations k xs)" .
    with True ys show ?thesis by simp
  next
    case False
    with "3.prems"(4) ys have "y \<in> set xs" by auto
    with above_x have "x < y" by simp
    with above_y have "\<forall>z \<in> set ys'. z \<noteq> x" by auto
    with "3.prems"(4) ys \<open>y \<in> set xs\<close> have "set ys \<subseteq> set xs" by auto
    with "3.IH"(2) [OF pool "3.prems"(2,3)] have "ys \<in> set (combinations (Suc k) xs)" .
    then show ?thesis by simp
  qed
qed

lemma set_combinations:
  fixes xs :: "'a::linorder list"
  assumes "sorted_wrt (<) xs"
  shows "set (combinations k xs) = {ys. length ys = k \<and> sorted_wrt (<) ys \<and> set ys \<subseteq> set xs}"
proof (intro set_eqI iffI)
  fix ys
  assume mem: "ys \<in> set (combinations k xs)"
  show "ys \<in> {ys. length ys = k \<and> sorted_wrt (<) ys \<and> set ys \<subseteq> set xs}"
    using combinations_ascending [OF assms mem] combinations_set_subset [OF mem]
      combinations_length_elem [OF mem]
    by simp
next
  fix ys
  assume "ys \<in> {ys. length ys = k \<and> sorted_wrt (<) ys \<and> set ys \<subseteq> set xs}"
  then have "length ys = k" "sorted_wrt (<) ys" "set ys \<subseteq> set xs"
    by simp_all
  then show "ys \<in> set (combinations k xs)"
    by (rule combinations_complete [OF assms])
qed

lemma combinations_lex_sorted:
  fixes xs :: "'a::linorder list"
  shows "sorted_wrt (<) xs \<Longrightarrow> sorted_wrt (<) (combinations k xs)"
proof (induction k xs rule: combinations.induct)
  case (3 k x xs)
  then have pool: "sorted_wrt (<) xs" and above_x: "\<forall>z \<in> set xs. x < z"
    by auto
  have keep: "sorted_wrt (<) (map ((#) x) (combinations k xs))"
    using "3.IH"(1) [OF pool] by (simp add: sorted_wrt_map)
  have cross: "x # a < b" if b_in: "b \<in> set (combinations (Suc k) xs)" for a b
  proof -
    obtain y b' where b: "b = y # b'"
      using combinations_length_elem [OF b_in] by (cases b) auto
    with combinations_set_subset [OF b_in] above_x have "x < y" by simp
    with b show ?thesis by simp
  qed
  show ?case
    using keep "3.IH"(2) [OF pool] cross by (auto simp: sorted_wrt_append)
qed simp_all

lemma combinations_distinct:
  fixes xs :: "'a::linorder list"
  shows "sorted_wrt (<) xs \<Longrightarrow> distinct (combinations k xs)"
  using combinations_lex_sorted [of xs k] strict_sorted_iff by blast

lemma combinations_first:
  "k \<le> length xs \<Longrightarrow> combinations k xs ! 0 = take k xs"
proof (induction k xs rule: combinations.induct)
  case (3 k x xs)
  then have "0 < (length xs choose k)" by simp
  then show ?case
    using 3 by (simp add: nth_append length_combinations)
qed simp_all

lemma combinations_last:
  "k \<le> length xs \<Longrightarrow> combinations k xs ! ((length xs choose k) - 1) = drop (length xs - k) xs"
proof (induction k xs rule: combinations.induct)
  case (1 xs)
  then show ?case by simp
next
  case (2 k)
  then show ?case by simp
next
  case (3 k x xs)
  show ?case
  proof (cases "Suc k \<le> length xs")
    case True
    then have pos: "0 < (length xs choose Suc k)" by simp
    have idx: "\<not> (length xs choose k) + (length xs choose Suc k) - 1 < (length xs choose k)"
      and shift: "(length xs choose k) + (length xs choose Suc k) - 1 - (length xs choose k)
                = (length xs choose Suc k) - 1"
      using pos by linarith+
    have "combinations (Suc k) (x # xs) ! ((length (x # xs) choose Suc k) - 1)
        = combinations (Suc k) xs ! ((length xs choose Suc k) - 1)"
      using idx shift by (simp add: nth_append length_combinations del: One_nat_def)
    also have "\<dots> = drop (length xs - Suc k) xs"
      by (rule "3.IH"(2) [OF True])
    also have "\<dots> = drop (length (x # xs) - Suc k) (x # xs)"
      using True by (simp add: Suc_diff_le drop_Cons')
    finally show ?thesis .
  next
    case False
    with "3.prems" have k: "k = length xs" by simp
    then have "combinations (Suc k) (x # xs) ! ((length (x # xs) choose Suc k) - 1)
        = x # combinations k xs ! ((length xs choose k) - 1)"
      by (simp add: nth_append length_combinations)
    also have "\<dots> = x # drop (length xs - k) xs"
      using "3.IH"(1) k by simp
    finally show ?thesis using k by simp
  qed
qed

lemma take_upto: "0 \<le> k \<Longrightarrow> k \<le> n \<Longrightarrow> take (nat k) [0..n - 1] = [0..k - 1]"
  by (rule nth_equalityI) simp_all

lemma drop_upto: "0 \<le> k \<Longrightarrow> k \<le> n \<Longrightarrow> drop (nat (n - k)) [0..n - 1] = [n - k..n - 1]"
  by (rule nth_equalityI) simp_all

subsection \<open>Ranks inside the domain\<close>

lemma pool_ascending: "sorted_wrt (<) [i..j]"
  by (simp add: sorted_wrt_upto)

lemma get_ith_comb_in_range:
  assumes "0 \<le> k" "k \<le> n" "0 \<le> idx" "idx < int (nat n choose nat k)"
  shows "get_ith_comb n k idx = Inr (lex_combinations n k ! nat idx)"
proof -
  let ?c = "int (nat n choose nat k)"
  have nk: "int (nat n) = n" "int (nat k) = k" using assms by simp_all
  have "get_ith_comb n k idx = comb_loop (nat k) n [] (int (nat n)) (int (nat k)) (?c - 1 - idx)"
    using assms by (simp add: get_ith_comb_def math_comb_def)
  also have "\<dots> = Inr ([] @ combinations (nat k) [n - int (nat n)..n - 1]
                               ! nat (?c - 1 - (?c - 1 - idx)))"
    by (rule comb_loop_unrank) (use assms in simp_all)
  finally show ?thesis
    by (simp add: lex_combinations_def nk)
qed

lemma length_lex_combinations:
  "0 \<le> n \<Longrightarrow> length (lex_combinations n k) = (nat n choose nat k)"
  by (simp add: lex_combinations_def length_combinations)

lemma set_lex_combinations:
  "set (lex_combinations n k) = {c. length c = nat k \<and> sorted_wrt (<) c \<and> set c \<subseteq> {0..n - 1}}"
  unfolding lex_combinations_def by (simp add: set_combinations [OF pool_ascending])

lemma lex_combinations_sorted: "sorted_wrt (<) (lex_combinations n k)"
  unfolding lex_combinations_def by (rule combinations_lex_sorted [OF pool_ascending])

lemma lex_combinations_distinct: "distinct (lex_combinations n k)"
  unfolding lex_combinations_def by (rule combinations_distinct [OF pool_ascending])

lemma get_ith_comb_bij:
  assumes "0 \<le> k" "k \<le> n"
  shows "bij_betw (get_ith_comb n k) {0..<int (nat n choose nat k)}
           (Inr ` set (lex_combinations n k))"
proof -
  let ?L = "lex_combinations n k"
  let ?c = "nat n choose nat k"
  have len: "length ?L = ?c"
    using assms by (simp add: length_lex_combinations)
  have eq: "get_ith_comb n k idx = Inr (?L ! nat idx)" if "idx \<in> {0..<int ?c}" for idx
    using that get_ith_comb_in_range [OF assms, of idx] by simp
  have inj: "inj_on (get_ith_comb n k) {0..<int ?c}"
  proof (rule inj_onI)
    fix i j
    assume i: "i \<in> {0..<int ?c}" and j: "j \<in> {0..<int ?c}"
      and same: "get_ith_comb n k i = get_ith_comb n k j"
    from same eq [OF i] eq [OF j] have "?L ! nat i = ?L ! nat j" by simp
    moreover have "nat i < length ?L" "nat j < length ?L"
      using i j len by auto
    ultimately have "nat i = nat j"
      using lex_combinations_distinct [of n k] by (simp add: nth_eq_iff_index_eq)
    moreover have "0 \<le> i" "0 \<le> j" using i j by simp_all
    ultimately show "i = j" by linarith
  qed
  have img: "get_ith_comb n k ` {0..<int ?c} = Inr ` set ?L"
  proof (intro set_eqI iffI)
    fix r
    assume "r \<in> get_ith_comb n k ` {0..<int ?c}"
    then obtain i where i: "i \<in> {0..<int ?c}" and r: "r = get_ith_comb n k i"
      by blast
    have "nat i < length ?L" using i len by auto
    then have "?L ! nat i \<in> set ?L" by (rule nth_mem)
    with r eq [OF i] show "r \<in> Inr ` set ?L" by simp
  next
    fix r :: "error + int list"
    assume "r \<in> Inr ` set ?L"
    then obtain c where c: "c \<in> set ?L" and r: "r = Inr c" by blast
    from c obtain i where i: "i < length ?L" and ci: "?L ! i = c"
      by (auto simp: in_set_conv_nth)
    have mem: "int i \<in> {0..<int ?c}" using i len by simp
    from eq [OF mem] ci r have "r = get_ith_comb n k (int i)" by simp
    with mem show "r \<in> get_ith_comb n k ` {0..<int ?c}" by blast
  qed
  show ?thesis
    unfolding bij_betw_def using inj img by simp
qed

text \<open>
  C1. For \<open>0 \<le> k \<le> n\<close> and every rank \<open>idx\<close> with \<open>0 \<le> idx < C(n, k)\<close>, the unranker
  returns the element at position \<open>idx\<close> of the enumeration of the \<open>k\<close>-combinations of
  \<open>{0, ..., n - 1}\<close>. That enumeration has \<open>C(n, k)\<close> entries, is strictly increasing in the
  lexicographic order, and its entries are exactly the strictly increasing lists of \<open>k\<close>
  indices in \<open>[0, n)\<close>; so the unranker is a bijection from \<open>[0, C(n, k))\<close> onto them.
\<close>

theorem get_ith_comb_lexicographic:
  assumes "0 \<le> k" "k \<le> n"
  shows "(\<forall>idx. 0 \<le> idx \<and> idx < int (nat n choose nat k) \<longrightarrow>
            get_ith_comb n k idx = Inr (lex_combinations n k ! nat idx))
       \<and> length (lex_combinations n k) = (nat n choose nat k)
       \<and> sorted_wrt (<) (lex_combinations n k)
       \<and> set (lex_combinations n k)
           = {c. length c = nat k \<and> sorted_wrt (<) c \<and> set c \<subseteq> {0..n - 1}}
       \<and> bij_betw (get_ith_comb n k) {0..<int (nat n choose nat k)}
           (Inr ` {c. length c = nat k \<and> sorted_wrt (<) c \<and> set c \<subseteq> {0..n - 1}})"
proof -
  have n: "0 \<le> n" using assms by simp
  have "bij_betw (get_ith_comb n k) {0..<int (nat n choose nat k)}
          (Inr ` set (lex_combinations n k))"
    by (rule get_ith_comb_bij [OF assms])
  then show ?thesis
    using get_ith_comb_in_range [OF assms] length_lex_combinations [OF n, of k]
      lex_combinations_sorted [of n k]
    unfolding set_lex_combinations [of n k] by blast
qed

theorem get_ith_comb_lexicographic_witness:
  "(0::int) \<le> 2 \<and> (2::int) \<le> 5
   \<and> get_ith_comb 5 2 4 = Inr [1, 2] \<and> get_ith_comb 5 2 9 = Inr [3, 4]
   \<and> lex_combinations 5 2
       = [[0, 1], [0, 2], [0, 3], [0, 4], [1, 2], [1, 3], [1, 4], [2, 3], [2, 4], [3, 4]]"
proof -
  have k: "(0::int) \<le> 2" and n: "(2::int) \<le> 5" by simp_all
  have enum: "lex_combinations 5 2
       = [[0, 1], [0, 2], [0, 3], [0, 4], [1, 2], [1, 3], [1, 4], [2, 3], [2, 4], [3, 4]]"
    by code_simp
  have c: "int (nat 5 choose nat 2) = 10" by code_simp
  from get_ith_comb_lexicographic [OF k n]
  have all: "\<forall>idx. 0 \<le> idx \<and> idx < int (nat 5 choose nat 2) \<longrightarrow>
            get_ith_comb 5 2 idx = Inr (lex_combinations 5 2 ! nat idx)"
    by blast
  have "get_ith_comb 5 2 4 = Inr (lex_combinations 5 2 ! nat 4)"
    using all c by simp
  moreover have "get_ith_comb 5 2 9 = Inr (lex_combinations 5 2 ! nat 9)"
    using all c by simp
  ultimately show ?thesis
    using enum by simp
qed

subsection \<open>Ranks and sizes outside the domain\<close>

lemma set_reversed_range: "set (reversed_range n_p) = {0..<n_p}"
  by (auto simp: reversed_range_def)

lemma next_scored_negative:
  assumes "abv < 0" "0 \<le> k_p" "\<forall>x \<in> set xs. 0 \<le> x"
  shows "next_scored k_p abv xs = Inl StopIteration"
  using assms by (induction xs) (simp_all add: math_comb_def)

lemma next_scored_Inl:
  assumes "0 \<le> k_p" "\<forall>x \<in> set xs. 0 \<le> x" "next_scored k_p abv xs = Inl e"
  shows "e = StopIteration"
  using assms by (induction xs) (auto simp: math_comb_def split: if_splits)

lemma next_scored_Inr:
  assumes "next_scored k_p abv xs = Inr (x, below)"
  shows "x \<in> set xs"
  using assms by (induction xs) (auto simp: math_comb_def split: if_splits)

lemma comb_loop_exhaust:
  "m < j \<Longrightarrow> comb_loop j n res (int m) (int j) abv = Inl StopIteration"
proof (induction j arbitrary: m res abv)
  case 0
  then show ?case by simp
next
  case (Suc j)
  have nonneg: "\<forall>x \<in> set (reversed_range (int m)). 0 \<le> x"
    by (simp add: set_reversed_range)
  have kp: "int (Suc j) - 1 = int j" by simp
  show ?case
  proof (cases "next_scored (int (Suc j)) abv (reversed_range (int m))")
    case (Inl e)
    with next_scored_Inl [OF _ nonneg Inl] show ?thesis
      by (simp del: of_nat_Suc)
  next
    case (Inr p)
    obtain x below where p: "p = (x, below)" by (cases p)
    from next_scored_Inr [OF Inr [unfolded p]] have "x \<in> {0..<int m}"
      by (simp add: set_reversed_range)
    with Suc.prems obtain y where x: "x = int y" and lt: "y < j"
      by (cases x) auto
    have "comb_loop (Suc j) n res (int m) (int (Suc j)) abv
        = comb_loop j n (res @ [n - 1 - x]) (int y) (int j) (abv - below)"
      using Inr unfolding p x by (simp add: kp del: of_nat_Suc)
    also have "\<dots> = Inl StopIteration"
      by (rule Suc.IH [OF lt])
    finally show ?thesis .
  qed
qed

lemma comb_loop_first:
  assumes "kp \<le> m" "int (m choose kp) - 1 \<le> abv"
  shows "comb_loop kp n res (int m) (int kp) abv
       = Inr (res @ [n - int m..n - int m + int kp - 1])"
  using assms
proof (induction kp arbitrary: m res abv)
  case 0
  then show ?case by simp
next
  case (Suc j)
  then obtain m' where m: "m = Suc m'" and j: "j \<le> m'"
    by (cases m) auto
  have pos: "0 < (m' choose j)" using j by simp
  have split: "int (Suc m' choose Suc j) = int (m' choose j) + int (m' choose Suc j)"
    by simp
  have take: "int (m' choose Suc j) \<le> abv"
    using Suc.prems(2) pos split unfolding m by linarith
  have rest: "int (m' choose j) - 1 \<le> abv - int (m' choose Suc j)"
    using Suc.prems(2) split unfolding m by linarith
  have "comb_loop (Suc j) n res (int (Suc m')) (int (Suc j)) abv
      = comb_loop j n (res @ [n - 1 - int m']) (int m') (int j) (abv - int (m' choose Suc j))"
    by (rule comb_loop_take [OF take])
  also have "\<dots> = Inr ((res @ [n - 1 - int m']) @ [n - int m'..n - int m' + int j - 1])"
    by (rule Suc.IH [OF j rest])
  also have "(res @ [n - 1 - int m']) @ [n - int m'..n - int m' + int j - 1]
      = res @ [n - int (Suc m')..n - int (Suc m') + int (Suc j) - 1]"
    by (subst (2) upto_rec1) (simp_all add: algebra_simps)
  finally show ?case unfolding m .
qed

lemma get_ith_comb_nonpositive:
  assumes "0 \<le> k" "k \<le> n" "idx \<le> 0"
  shows "get_ith_comb n k idx = Inr [0..k - 1]"
proof -
  let ?c = "int (nat n choose nat k)"
  have nk: "int (nat n) = n" "int (nat k) = k" using assms by simp_all
  have "get_ith_comb n k idx = comb_loop (nat k) n [] (int (nat n)) (int (nat k)) (?c - 1 - idx)"
    using assms by (simp add: get_ith_comb_def math_comb_def)
  also have "\<dots> = Inr ([] @ [n - int (nat n)..n - int (nat n) + int (nat k) - 1])"
    by (rule comb_loop_first) (use assms in simp_all)
  finally show ?thesis unfolding nk by simp
qed

lemma get_ith_comb_negative_args:
  "n < 0 \<or> k < 0 \<Longrightarrow> get_ith_comb n k idx = Inl ValueError"
  by (simp add: get_ith_comb_def math_comb_def)

lemma get_ith_comb_oversized:
  assumes "0 \<le> n" "n < k"
  shows "get_ith_comb n k idx = Inl StopIteration"
proof -
  have nk: "int (nat n) = n" "int (nat k) = k" and lt: "nat n < nat k"
    using assms by simp_all
  have "get_ith_comb n k idx
      = comb_loop (nat k) n [] (int (nat n)) (int (nat k)) (int (nat n choose nat k) - 1 - idx)"
    using assms by (simp add: get_ith_comb_def math_comb_def)
  also have "\<dots> = Inl StopIteration"
    by (rule comb_loop_exhaust [OF lt])
  finally show ?thesis .
qed

lemma get_ith_comb_rank_too_large:
  assumes "0 \<le> n" "1 \<le> k" "int (nat n choose nat k) \<le> idx"
  shows "get_ith_comb n k idx = Inl StopIteration"
proof -
  obtain j where j: "nat k = Suc j" using assms(2) by (cases "nat k") auto
  have neg: "int (nat n choose nat k) - 1 - idx < 0" using assms(3) by simp
  have "next_scored k (int (nat n choose nat k) - 1 - idx) (reversed_range n)
      = Inl StopIteration"
    by (rule next_scored_negative [OF neg]) (use assms in \<open>simp_all add: set_reversed_range\<close>)
  then show ?thesis
    using assms by (simp add: get_ith_comb_def math_comb_def j)
qed

lemma get_ith_comb_empty: "0 \<le> n \<Longrightarrow> get_ith_comb n 0 idx = Inr []"
  by (simp add: get_ith_comb_def math_comb_def)

subsection \<open>Boundary ranks and rejected arguments\<close>

lemma get_ith_comb_last:
  assumes "0 \<le> k" "k \<le> n"
  shows "get_ith_comb n k (int (nat n choose nat k) - 1) = Inr [n - k..n - 1]"
proof -
  let ?c = "nat n choose nat k"
  have pos: "0 < ?c" using assms by simp
  have len: "length [0..n - 1] = nat n" using assms by simp
  have le: "nat k \<le> length [0..n - 1]" using assms by simp
  have "get_ith_comb n k (int ?c - 1) = Inr (lex_combinations n k ! nat (int ?c - 1))"
    by (rule get_ith_comb_in_range [OF assms]) (use pos in simp_all)
  also have "nat (int ?c - 1) = (length [0..n - 1] choose nat k) - 1"
    unfolding len using pos by simp
  also have "lex_combinations n k ! ((length [0..n - 1] choose nat k) - 1)
           = drop (length [0..n - 1] - nat k) [0..n - 1]"
    unfolding lex_combinations_def by (rule combinations_last [OF le])
  also have "length [0..n - 1] - nat k = nat (n - k)"
    unfolding len using assms by simp
  also have "drop (nat (n - k)) [0..n - 1] = [n - k..n - 1]"
    by (rule drop_upto [OF assms])
  finally show ?thesis .
qed

text \<open>
  C5. Boundary and degenerate ranks: for \<open>0 \<le> k \<le> n\<close>, rank \<open>0\<close> gives \<open>[0, ..., k - 1]\<close>
  and rank \<open>C(n, k) - 1\<close> gives \<open>[n - k, ..., n - 1]\<close>; with \<open>k = 0\<close> rank \<open>0\<close> gives the
  empty list and with \<open>k = n\<close> it gives \<open>[0, ..., n - 1]\<close>.
\<close>

theorem get_ith_comb_boundaries:
  assumes "0 \<le> k" "k \<le> n"
  shows "get_ith_comb n k 0 = Inr [0..k - 1]
       \<and> get_ith_comb n k (int (nat n choose nat k) - 1) = Inr [n - k..n - 1]
       \<and> get_ith_comb n 0 0 = Inr []
       \<and> get_ith_comb n n 0 = Inr [0..n - 1]"
proof -
  have n: "0 \<le> n" using assms by simp
  have "get_ith_comb n k 0 = Inr [0..k - 1]"
    by (rule get_ith_comb_nonpositive [OF assms]) simp
  moreover have "get_ith_comb n n 0 = Inr [0..n - 1]"
    by (rule get_ith_comb_nonpositive [OF n]) simp_all
  ultimately show ?thesis
    using get_ith_comb_last [OF assms] get_ith_comb_empty [OF n] by simp
qed

theorem get_ith_comb_boundaries_witness:
  "(0::int) \<le> 2 \<and> (2::int) \<le> 5
   \<and> get_ith_comb 5 2 0 = Inr [0, 1] \<and> get_ith_comb 5 2 (10 - 1) = Inr [3, 4]
   \<and> get_ith_comb 5 0 0 = Inr [] \<and> get_ith_comb 5 5 0 = Inr [0, 1, 2, 3, 4]"
proof -
  have k: "(0::int) \<le> 2" and n: "(2::int) \<le> 5" by simp_all
  have c: "int (nat 5 choose nat 2) = 10" by code_simp
  have pools: "[0..2 - 1] = [0, 1::int]" "[5 - 2..5 - 1] = [3, 4::int]"
    "[0..5 - 1] = [0, 1, 2, 3, 4::int]"
    by code_simp+
  show ?thesis
    using get_ith_comb_boundaries [OF k n] unfolding c pools by simp
qed

text \<open>
  C9. With \<open>k = 0\<close> (and \<open>n \<ge> 0\<close>, the only \<open>n\<close> that \<^verbatim>\<open>math.comb\<close> accepts) the loop body
  never runs: the result is the empty list for every integer rank, negative ranks and
  ranks \<open>\<ge> C(n, 0) = 1\<close> included, and nothing is raised.
\<close>

theorem get_ith_comb_k0_any_rank:
  "0 \<le> n \<Longrightarrow> get_ith_comb n 0 idx = Inr []"
  by (simp add: get_ith_comb_def math_comb_def)

theorem get_ith_comb_k0_any_rank_witness:
  "(0::int) \<le> 5 \<and> get_ith_comb 5 0 (- 7) = Inr [] \<and> get_ith_comb 5 0 1 = Inr []"
proof -
  have n: "(0::int) \<le> 5" by simp
  show ?thesis
    using get_ith_comb_k0_any_rank [OF n, of "- 7"] get_ith_comb_k0_any_rank [OF n, of 1]
    by simp
qed

text \<open>
  C10. For \<open>1 \<le> k \<le> n\<close> rank \<open>-1\<close> is not rejected: the result is \<open>[0, ..., k - 1]\<close>, the
  same as for rank \<open>0\<close>.
\<close>

theorem get_ith_comb_minus_one:
  assumes "1 \<le> k" "k \<le> n"
  shows "get_ith_comb n k (- 1) = Inr [0..k - 1]
       \<and> get_ith_comb n k (- 1) = get_ith_comb n k 0"
proof -
  have k: "0 \<le> k" using assms by simp
  have "get_ith_comb n k (- 1) = Inr [0..k - 1]"
    by (rule get_ith_comb_nonpositive [OF k assms(2)]) simp
  moreover have "get_ith_comb n k 0 = Inr [0..k - 1]"
    by (rule get_ith_comb_nonpositive [OF k assms(2)]) simp
  ultimately show ?thesis by simp
qed

theorem get_ith_comb_minus_one_witness:
  "(1::int) \<le> 3 \<and> (3::int) \<le> 6 \<and> get_ith_comb 6 3 (- 1) = Inr [0, 1, 2]"
proof -
  have k: "(1::int) \<le> 3" and n: "(3::int) \<le> 6" by simp_all
  have pool: "[0..3 - 1] = [0, 1, 2::int]" by code_simp
  show ?thesis
    using get_ith_comb_minus_one [OF k n] unfolding pool by simp
qed

text \<open>
  C3. The unranker does not validate its arguments; what is raised comes from
  \<^verbatim>\<open>math.comb\<close> and from the exhausted scan. At \<open>n = 5\<close>, \<open>k = 2\<close> rank \<open>-1\<close> returns a
  combination instead of raising.
\<close>

theorem get_ith_comb_range_rejection_counterexample:
  "get_ith_comb 5 2 (- 1) = Inr [0, 1]"
  by code_simp

text \<open>
  C3, amended. A negative \<open>n\<close> or \<open>k\<close> raises \<^verbatim>\<open>ValueError\<close>; \<open>k > n \<ge> 0\<close> raises
  \<^verbatim>\<open>StopIteration\<close> for every rank; a rank \<open>\<ge> C(n, k)\<close> raises \<^verbatim>\<open>StopIteration\<close> when
  \<open>k \<ge> 1\<close>. A negative rank with \<open>0 \<le> k \<le> n\<close> is not rejected and yields the first
  combination, and with \<open>k = 0\<close> no rank is rejected.
\<close>

theorem get_ith_comb_range_rejection:
  "(n < 0 \<or> k < 0 \<longrightarrow> get_ith_comb n k idx = Inl ValueError)
   \<and> (0 \<le> n \<and> n < k \<longrightarrow> get_ith_comb n k idx = Inl StopIteration)
   \<and> (0 \<le> n \<and> 1 \<le> k \<and> int (nat n choose nat k) \<le> idx \<longrightarrow>
        get_ith_comb n k idx = Inl StopIteration)
   \<and> (0 \<le> k \<and> k \<le> n \<and> idx < 0 \<longrightarrow> get_ith_comb n k idx = Inr [0..k - 1])
   \<and> (0 \<le> n \<and> k = 0 \<longrightarrow> get_ith_comb n k idx = Inr [])"
  using get_ith_comb_negative_args [of n k idx] get_ith_comb_oversized [of n k idx]
    get_ith_comb_rank_too_large [of n k idx] get_ith_comb_nonpositive [of k n idx]
    get_ith_comb_empty [of n idx]
  by auto

theorem get_ith_comb_range_rejection_witness:
  "get_ith_comb (- 1) 2 0 = Inl ValueError \<and> get_ith_comb 5 (- 2) 0 = Inl ValueError
   \<and> get_ith_comb 2 3 (- 1) = Inl StopIteration
   \<and> get_ith_comb 5 2 10 = Inl StopIteration
   \<and> get_ith_comb 5 2 (- 3) = Inr [0, 1]
   \<and> get_ith_comb 5 0 1 = Inr []"
proof -
  have c: "int (nat 5 choose nat 2) = 10" by code_simp
  have pool: "[0..2 - 1] = [0, 1::int]" by code_simp
  show ?thesis
    using get_ith_comb_range_rejection [of "- 1" 2 0] get_ith_comb_range_rejection [of 5 "- 2" 0]
      get_ith_comb_range_rejection [of 2 3 "- 1"] get_ith_comb_range_rejection [of 5 2 10]
      get_ith_comb_range_rejection [of 5 2 "- 3"] get_ith_comb_range_rejection [of 5 0 1]
    unfolding c pool by simp
qed

end
